theory Spec2Isabelle
  imports Main "HOL-Library.Multiset" "HOL-Library.Sublist" "HOL-Library.List_Lexorder"
begin

section \<open>The subset-sum search of \<open>perfect_sum.py\<close>\<close>

subsection \<open>Values\<close>

text \<open>
  Python's integers are unbounded, so a population is an \<open>int\<close>. The function returns either
  a list (\<open>population_list\<close> itself, or a fresh \<open>[]\<close>) or a tuple (an element of
  \<open>itertools.combinations\<close>). Python compares a list and a tuple as different values
  (\<open>() == []\<close> is false), so the two are kept apart.
\<close>

datatype py_value = PyList "int list" | PyTuple "int list"

text \<open>The elements of a returned value, whichever container holds them.\<close>

fun elems :: "py_value \<Rightarrow> int list" where
  "elems (PyList xs) = xs"
| "elems (PyTuple xs) = xs"

text \<open>The value of \<open>return []\<close> (lines 76 and 95): the function's not-found signal.\<close>

definition not_found :: py_value where
  "not_found = PyList []"

text \<open>
  What one call does: the value it returns, the caller's list after the call (the function
  sorts its argument in place), and the combinations the inner loop has bound to
  \<open>population_subset\<close>, in order.
\<close>

record call =
  returned :: py_value
  final_list :: "int list"
  examined :: "int list list"

subsection \<open>Library functions\<close>

text \<open>
  \<open>population_list.sort(key=int, reverse=True)\<close>: a stable sort by descending key. On
  integers the key \<open>int\<close> is the identity. \<open>sort_key\<close> is a stable insertion sort by
  ascending key, so the key is negated.
\<close>

definition sort_descending :: "int list \<Rightarrow> int list" where
  "sort_descending xs = sort_key (\<lambda>x. - x) xs"

text \<open>
  \<open>itertools.combinations(pool, r)\<close>: the subsequences of \<open>pool\<close> of length \<open>r\<close>, by
  position, in lexicographic order of the positions; nothing when \<open>r\<close> exceeds the
  length of the pool.
\<close>

fun combinations :: "'a list \<Rightarrow> nat \<Rightarrow> 'a list list" where
  "combinations xs 0 = [[]]"
| "combinations [] (Suc r) = []"
| "combinations (x # xs) (Suc r) =
     map ((#) x) (combinations xs r) @ combinations xs (Suc r)"

subsection \<open>The search\<close>

text \<open>
  The inner loop (lines 91 to 93) over the combinations of one size: the first one whose sum
  is the target is returned; the second component lists the combinations the loop has seen.
\<close>

fun inner_loop :: "int \<Rightarrow> int list list \<Rightarrow> int list option \<times> int list list" where
  "inner_loop target_sum [] = (None, [])"
| "inner_loop target_sum (population_subset # rest) =
     (if sum_list population_subset = target_sum then (Some population_subset, [population_subset])
      else (case inner_loop target_sum rest of
              (r, seen) \<Rightarrow> (r, population_subset # seen)))"

text \<open>
  The outer loop (lines 82 to 95) over the sizes still to try. A size whose largest possible
  sum \<open>sum(population_list[0:subset_depth])\<close> is below the target is skipped; when the
  sizes are used up, \<open>[]\<close> is returned.
\<close>

fun outer_loop :: "int list \<Rightarrow> int \<Rightarrow> nat list \<Rightarrow> py_value \<times> int list list" where
  "outer_loop population_list target_sum [] = (PyList [], [])"
| "outer_loop population_list target_sum (subset_depth # depths) =
     (if sum_list (take subset_depth population_list) < target_sum
      then outer_loop population_list target_sum depths
      else (case inner_loop target_sum (combinations population_list subset_depth) of
              (Some population_subset, seen) \<Rightarrow> (PyTuple population_subset, seen)
            | (None, seen) \<Rightarrow>
                (case outer_loop population_list target_sum depths of
                   (r, seen') \<Rightarrow> (r, seen @ seen'))))"

text \<open>\<open>find_matching_subset\<close> (lines 58 to 95); \<open>range(len(population_list))\<close> is \<open>[0..<n]\<close>.\<close>

definition find_matching_subset :: "int list \<Rightarrow> int \<Rightarrow> call" where
  "find_matching_subset population_list target_sum =
     (let total_population_sum = sum_list population_list in
      if total_population_sum = target_sum \<or> total_population_sum = 0
      then \<lparr>returned = PyList population_list, final_list = population_list, examined = []\<rparr>
      else if total_population_sum < target_sum
      then \<lparr>returned = PyList [], final_list = population_list, examined = []\<rparr>
      else
        (let sorted_list = sort_descending population_list in
         (case outer_loop sorted_list target_sum [0..<length sorted_list] of
            (r, seen) \<Rightarrow> \<lparr>returned = r, final_list = sorted_list, examined = seen\<rparr>)))"

subsection \<open>The order of the search, in the spec's words\<close>

text \<open>
  The spec (section 4.1, step 2, and section 9) orders the candidates by size ascending and,
  within a size, by the lexicographic order of their index positions in the
  descending-sorted input. \<open>spec_index_lists n k\<close> goes through all lists of \<open>k\<close>
  positions below \<open>n\<close> in lexicographic order and keeps the strictly increasing ones: a
  combination takes a position at most once, in the order of the input.
  \<open>spec_enumeration_order\<close> reads the candidates off the sorted list, for the sizes
  \<open>0\<close> to \<open>n\<close>. Neither definition uses \<open>combinations\<close>.
\<close>

definition spec_index_lists :: "nat \<Rightarrow> nat \<Rightarrow> nat list list" where
  "spec_index_lists n k = filter (sorted_wrt (<)) (product_lists (replicate k [0..<n]))"

definition spec_enumeration_order :: "int list \<Rightarrow> int list list" where
  "spec_enumeration_order xs =
     (let ys = sort_descending xs in
      concat (map (\<lambda>k. map (map ((!) ys)) (spec_index_lists (length ys) k))
        [0..<Suc (length ys)]))"

text \<open>The elements of a list up to the first one that satisfies \<open>P\<close>, that one included.\<close>

fun up_to_first :: "('a \<Rightarrow> bool) \<Rightarrow> 'a list \<Rightarrow> 'a list" where
  "up_to_first P [] = []"
| "up_to_first P (x # xs) = (if P x then [x] else x # up_to_first P xs)"

section \<open>Auxiliary facts\<close>

subsection \<open>Searching a list\<close>

lemma find_append:
  "find P (xs @ ys) = (case find P xs of Some x \<Rightarrow> Some x | None \<Rightarrow> find P ys)"
  by (induction xs) auto

lemma find_SomeD: "find P xs = Some x \<Longrightarrow> P x \<and> x \<in> set xs"
  by (induction xs) (auto split: if_splits)

lemma up_to_first_append:
  "up_to_first P (xs @ ys) =
     (case find P xs of Some x \<Rightarrow> up_to_first P xs | None \<Rightarrow> xs @ up_to_first P ys)"
  by (induction xs) (auto split: option.splits)

lemma up_to_first_no_match: "find P xs = None \<Longrightarrow> up_to_first P xs = xs"
  by (induction xs) (auto split: if_splits)

lemma up_to_first_last: "find P xs = Some x \<Longrightarrow> up_to_first P xs \<noteq> [] \<and> last (up_to_first P xs) = x"
  by (induction xs) (auto split: if_splits)

subsection \<open>Combinations, subsequences and sub-multisets\<close>

lemma combinations_iff: "c \<in> set (combinations xs r) \<longleftrightarrow> subseq c xs \<and> length c = r"
proof (induction xs r arbitrary: c rule: combinations.induct)
  case (1 xs)
  then show ?case by auto
next
  case (2 r)
  then show ?case by auto
next
  case (3 x xs r)
  show ?case
  proof (cases c)
    case Nil
    then show ?thesis using 3 by auto
  next
    case (Cons a c')
    then show ?thesis using 3 by (auto dest: subseq_Cons')
  qed
qed

lemma subseq_mset_le: "subseq c ys \<Longrightarrow> mset c \<subseteq># mset ys"
  by (induction rule: list_emb.induct) (auto intro: subset_mset.order_trans)

lemma mset_le_remove: "y \<in># M \<Longrightarrow> M \<subseteq># add_mset y N \<Longrightarrow> M - {#y#} \<subseteq># N"
  by (metis insert_DiffM add_mset_remove_trivial insert_subset_eq_iff)

lemma mset_le_skip: "y \<notin># M \<Longrightarrow> M \<subseteq># add_mset y N \<Longrightarrow> M \<subseteq># N"
  by (metis Diff_eq_empty_iff_mset minus_add_mset_if_not_in_lhs)

lemma submset_subseq: "M \<subseteq># mset ys \<Longrightarrow> \<exists>c. subseq c ys \<and> mset c = M"
proof (induction ys arbitrary: M)
  case Nil
  then show ?case by simp
next
  case (Cons y ys)
  show ?case
  proof (cases "y \<in># M")
    case True
    then have "M - {#y#} \<subseteq># mset ys"
      using Cons.prems by (simp add: mset_le_remove)
    then obtain c where "subseq c ys" "mset c = M - {#y#}"
      using Cons.IH by blast
    then have "subseq (y # c) (y # ys) \<and> mset (y # c) = M"
      using True by simp
    then show ?thesis by blast
  next
    case False
    then have "M \<subseteq># mset ys"
      using Cons.prems by (simp add: mset_le_skip)
    then obtain c where "subseq c ys" "mset c = M"
      using Cons.IH by blast
    then have "subseq c (y # ys) \<and> mset c = M" by (simp add: list_emb_Cons)
    then show ?thesis by blast
  qed
qed

lemma subseq_set: "subseq c ys \<Longrightarrow> set c \<subseteq> set ys"
  using subseq_mset_le [of c ys] set_mset_mono [of "mset c" "mset ys"] by simp

lemma subseq_sorted_wrt: "subseq c ys \<Longrightarrow> sorted_wrt R ys \<Longrightarrow> sorted_wrt R c"
proof (induction rule: list_emb.induct)
  case (list_emb_Nil ys)
  then show ?case by simp
next
  case (list_emb_Cons xs ys y)
  then show ?case by simp
next
  case (list_emb_Cons2 x y xs ys)
  then show ?case using subseq_set [of xs ys] by auto
qed

lemma combinations_map: "combinations (map f xs) r = map (map f) (combinations xs r)"
  by (induction xs r rule: combinations.induct) simp_all

text \<open>
  The combinations of the positions \<open>[0..<n]\<close>: every strictly increasing list of \<open>r\<close>
  positions, in lexicographic order (the order of lists is the lexicographic one).
\<close>

lemma combinations_upt_iff:
  "js \<in> set (combinations [0..<n] r) \<longleftrightarrow> sorted_wrt (<) js \<and> set js \<subseteq> {..<n} \<and> length js = r"
proof -
  have "subseq js [0..<n] \<longleftrightarrow> sorted_wrt (<) js \<and> set js \<subseteq> {..<n}"
  proof
    assume s: "subseq js [0..<n]"
    then have "sorted_wrt (<) js" by (rule subseq_sorted_wrt) simp
    moreover have "set js \<subseteq> {..<n}" using subseq_set [OF s] by auto
    ultimately show "sorted_wrt (<) js \<and> set js \<subseteq> {..<n}" by simp
  next
    assume "sorted_wrt (<) js \<and> set js \<subseteq> {..<n}"
    then show "subseq js [0..<n]"
      by (intro sorted_subset_imp_subseq) auto
  qed
  then show ?thesis by (simp add: combinations_iff)
qed

lemma combinations_lexicographic:
  "sorted_wrt (<) (xs :: nat list) \<Longrightarrow> sorted_wrt (<) (combinations xs r)"
proof (induction xs r rule: combinations.induct)
  case (1 xs)
  then show ?case by simp
next
  case (2 r)
  then show ?case by simp
next
  case (3 x xs r)
  have "sorted_wrt (<) (map ((#) x) (combinations xs r))"
    using 3 by (simp add: sorted_wrt_map)
  moreover have "sorted_wrt (<) (combinations xs (Suc r))"
    using 3 by simp
  moreover have "\<forall>a \<in> set (map ((#) x) (combinations xs r)).
      \<forall>b \<in> set (combinations xs (Suc r)). a < b"
  proof (intro ballI)
    fix a b
    assume a: "a \<in> set (map ((#) x) (combinations xs r))"
      and "b \<in> set (combinations xs (Suc r))"
    then have sb: "subseq b xs" "length b = Suc r" by (simp_all add: combinations_iff)
    then obtain b0 b' where b: "b = b0 # b'" by (cases b) auto
    then have "b0 \<in> set xs" using subseq_set [OF sb(1)] by auto
    then have "x < b0" using "3.prems" by simp
    then show "a < b" using a b by auto
  qed
  ultimately have "sorted_wrt (<) (map ((#) x) (combinations xs r) @ combinations xs (Suc r))"
    unfolding sorted_wrt_append by blast
  then show ?case by simp
qed

text \<open>The spec's list of positions is the same list.\<close>

lemma sorted_concat_Cons:
  "sorted_wrt (<) (xs :: nat list) \<Longrightarrow> sorted_wrt (<) R \<Longrightarrow>
     sorted_wrt (<) (concat (map (\<lambda>x. map ((#) x) R) xs))"
proof (induction xs)
  case Nil
  then show ?case by simp
next
  case (Cons x xs)
  have "sorted_wrt (<) (map ((#) x) R)"
    using Cons.prems(2) by (simp add: sorted_wrt_map)
  moreover have "sorted_wrt (<) (concat (map (\<lambda>x. map ((#) x) R) xs))"
    using Cons by simp
  moreover have "\<forall>a \<in> set (map ((#) x) R).
      \<forall>b \<in> set (concat (map (\<lambda>x. map ((#) x) R) xs)). a < b"
  proof (intro ballI)
    fix a b
    assume "a \<in> set (map ((#) x) R)" "b \<in> set (concat (map (\<lambda>x. map ((#) x) R) xs))"
    then obtain a' y b' where "a = x # a'" "b = y # b'" "y \<in> set xs" by auto
    then show "a < b" using Cons.prems(1) by auto
  qed
  ultimately have "sorted_wrt (<)
      (map ((#) x) R @ concat (map (\<lambda>x. map ((#) x) R) xs))"
    unfolding sorted_wrt_append by blast
  then show ?case by simp
qed

lemma sorted_product_lists:
  "sorted_wrt (<) (xs :: nat list) \<Longrightarrow> sorted_wrt (<) (product_lists (replicate k xs))"
  by (induction k) (simp_all add: sorted_concat_Cons)

lemma set_product_lists_replicate:
  "set (product_lists (replicate k xs)) = {js. length js = k \<and> set js \<subseteq> set xs}"
proof (induction k)
  case 0
  then show ?case by auto
next
  case (Suc k)
  show ?case
  proof (intro set_eqI iffI)
    fix js assume "js \<in> set (product_lists (replicate (Suc k) xs))"
    then show "js \<in> {js. length js = Suc k \<and> set js \<subseteq> set xs}"
      using Suc by auto
  next
    fix js assume a: "js \<in> {js. length js = Suc k \<and> set js \<subseteq> set xs}"
    then obtain j js' where "js = j # js'" by (cases js) auto
    then show "js \<in> set (product_lists (replicate (Suc k) xs))"
      using a Suc by auto
  qed
qed

lemma spec_index_lists_iff:
  "js \<in> set (spec_index_lists n k) \<longleftrightarrow> sorted_wrt (<) js \<and> set js \<subseteq> {..<n} \<and> length js = k"
  by (auto simp: spec_index_lists_def set_product_lists_replicate subset_eq)

lemma spec_index_lists_lexicographic: "sorted_wrt (<) (spec_index_lists n k)"
  unfolding spec_index_lists_def
  by (intro sorted_wrt_filter sorted_product_lists) simp

lemma combinations_upt: "combinations [0..<n] k = spec_index_lists n k"
proof -
  have "sorted_wrt (<) (combinations [0..<n] k)"
    by (rule combinations_lexicographic) simp
  moreover have "set (spec_index_lists n k) = set (combinations [0..<n] k)"
    by (auto simp: combinations_upt_iff spec_index_lists_iff)
  ultimately show ?thesis
    using spec_index_lists_lexicographic [of n k] by (metis strict_sorted_equal)
qed

lemma combinations_by_index:
  "combinations xs r = map (map ((!) xs)) (spec_index_lists (length xs) r)"
proof -
  have "combinations (map ((!) xs) [0..<length xs]) r =
      map (map ((!) xs)) (combinations [0..<length xs] r)"
    by (rule combinations_map)
  then show ?thesis by (simp add: combinations_upt map_nth)
qed

subsection \<open>Sums of positive integers\<close>

lemma positive_sum_nonneg: "\<forall>x \<in> set xs. (0::int) < x \<Longrightarrow> 0 \<le> sum_list xs"
  by (induction xs) auto

lemma positive_sum_zero: "\<forall>x \<in> set xs. (0::int) < x \<Longrightarrow> sum_list xs = 0 \<Longrightarrow> xs = []"
proof (cases xs)
  case Nil
  then show ?thesis by simp
next
  case (Cons a as)
  assume pos: "\<forall>x \<in> set xs. (0::int) < x" and z: "sum_list xs = 0"
  have "0 \<le> sum_list as" using pos Cons by (simp add: positive_sum_nonneg)
  moreover have "0 < a" using pos Cons by simp
  ultimately show ?thesis using z Cons by simp
qed

lemma subseq_sum_le:
  "subseq c ys \<Longrightarrow> \<forall>y \<in> set ys. (0::int) < y \<Longrightarrow> sum_list c \<le> sum_list ys"
  by (induction rule: list_emb.induct) (auto simp: positive_sum_nonneg intro: add_increasing)

subsection \<open>The descending sort and the pruning bound\<close>

lemma sorted_sort_descending: "sorted (map (\<lambda>x. - x) (sort_descending xs))"
  by (simp add: sort_descending_def)

lemma mset_sort_descending: "mset (sort_descending xs) = mset xs"
  by (simp add: sort_descending_def)

lemma sort_descending_idem: "sort_descending (sort_descending xs) = sort_descending xs"
  unfolding sort_descending_def by (rule sort_key_id_if_sorted) (rule sorted_sort_key)

lemma sum_list_sort_descending: "sum_list (sort_descending xs) = sum_list xs"
  by (metis mset_sort_descending sum_mset_sum_list)

lemma length_sort_descending: "length (sort_descending xs) = length xs"
  by (simp add: sort_descending_def)

text \<open>
  In a descending list no subsequence of a given length sums to more than the prefix of that
  length.
\<close>

lemma sum_take_step:
  assumes "\<forall>z \<in> set ys. z \<le> (y::int)" "k < length ys"
  shows "sum_list (take (Suc k) ys) \<le> y + sum_list (take k ys)"
proof -
  have "take (Suc k) ys = take k ys @ [ys ! k]"
    using assms(2) by (simp add: take_Suc_conv_app_nth)
  moreover have "ys ! k \<le> y" using assms by simp
  ultimately show ?thesis by simp
qed

lemma prune_bound:
  "sorted (map (\<lambda>x. - x) ys) \<Longrightarrow> subseq c ys \<Longrightarrow>
     sum_list c \<le> sum_list (take (length c) (ys::int list))"
proof (induction ys arbitrary: c)
  case Nil
  then show ?case by (auto dest: list_emb_Nil2)
next
  case (Cons y ys)
  have srt: "sorted (map (\<lambda>x. - x) ys)" and top: "\<forall>z \<in> set ys. z \<le> y"
    using Cons.prems(1) by auto
  show ?case
  proof (cases c)
    case Nil
    then show ?thesis by simp
  next
    case c: (Cons a c')
    show ?thesis
    proof (cases "a = y \<and> subseq c' ys")
      case True
      then have "sum_list c' \<le> sum_list (take (length c') ys)"
        using Cons.IH srt by blast
      then show ?thesis using c True by simp
    next
      case False
      then have sub: "subseq (a # c') ys"
        using Cons.prems(2) c by (auto split: if_splits)
      then have "sum_list (a # c') \<le> sum_list (take (Suc (length c')) ys)"
        using Cons.IH [OF srt sub] by simp
      moreover have "length c' < length ys"
        using list_emb_length [OF sub] by simp
      then have "sum_list (take (Suc (length c')) ys) \<le> y + sum_list (take (length c') ys)"
        using top by (rule sum_take_step [rotated])
      ultimately show ?thesis using c by simp
    qed
  qed
qed

text \<open>A pruned size holds no combination that sums to the target.\<close>

lemma pruned_no_match:
  assumes "sorted (map (\<lambda>x. - x) ys)" "sum_list (take k ys) < (t::int)"
  shows "find (\<lambda>c. sum_list c = t) (combinations ys k) = None"
proof -
  have "sum_list c \<noteq> t" if "c \<in> set (combinations ys k)" for c
  proof -
    from that have "subseq c ys" "length c = k" by (simp_all add: combinations_iff)
    then have "sum_list c \<le> sum_list (take k ys)"
      using prune_bound [OF assms(1)] by blast
    then show ?thesis using assms(2) by simp
  qed
  then show ?thesis by (auto simp: find_None_iff)
qed

lemma find_unpruned:
  assumes "sorted (map (\<lambda>x. - x) (ys :: int list))"
  shows "find (\<lambda>c. sum_list c = t)
           (concat (map (\<lambda>k. if sum_list (take k ys) < t then [] else combinations ys k) ks)) =
         find (\<lambda>c. sum_list c = t) (concat (map (combinations ys) ks))"
proof (induction ks)
  case Nil
  then show ?case by simp
next
  case (Cons k ks)
  show ?case
  proof (cases "sum_list (take k ys) < t")
    case True
    then show ?thesis
      using Cons pruned_no_match [OF assms True] by (simp add: find_append)
  next
    case False
    then show ?thesis using Cons by (simp add: find_append split: option.splits)
  qed
qed

subsection \<open>The two loops\<close>

lemma inner_loop_fst: "fst (inner_loop t cs) = find (\<lambda>c. sum_list c = t) cs"
  by (induction cs) (auto split: prod.splits)

lemma inner_loop_seen: "snd (inner_loop t cs) = up_to_first (\<lambda>c. sum_list c = t) cs"
  by (induction cs) (auto split: prod.splits)

lemma outer_loop_fst:
  assumes "sorted (map (\<lambda>x. - x) ys)"
  shows "fst (outer_loop ys t ks) =
     (case find (\<lambda>c. sum_list c = t) (concat (map (combinations ys) ks)) of
        Some c \<Rightarrow> PyTuple c | None \<Rightarrow> PyList [])"
proof (induction ks)
  case Nil
  then show ?case by simp
next
  case (Cons k ks)
  show ?case
  proof (cases "sum_list (take k ys) < t")
    case True
    then show ?thesis
      using Cons pruned_no_match [OF assms True] by (simp add: find_append)
  next
    case False
    have "fst (inner_loop t (combinations ys k)) = find (\<lambda>c. sum_list c = t) (combinations ys k)"
      by (rule inner_loop_fst)
    then show ?thesis
      using Cons False by (auto simp: find_append split: prod.splits option.splits)
  qed
qed

lemma outer_loop_snd:
  "snd (outer_loop ys t ks) =
     up_to_first (\<lambda>c. sum_list c = t)
       (concat (map (\<lambda>k. if sum_list (take k ys) < t then [] else combinations ys k) ks))"
proof (induction ks)
  case Nil
  then show ?case by simp
next
  case (Cons k ks)
  show ?case
  proof (cases "sum_list (take k ys) < t")
    case True
    then show ?thesis using Cons by simp
  next
    case False
    have f: "fst (inner_loop t (combinations ys k)) = find (\<lambda>c. sum_list c = t) (combinations ys k)"
      by (rule inner_loop_fst)
    have s: "snd (inner_loop t (combinations ys k)) =
        up_to_first (\<lambda>c. sum_list c = t) (combinations ys k)"
      by (rule inner_loop_seen)
    show ?thesis
    proof (cases "find (\<lambda>c. sum_list c = t) (combinations ys k)")
      case None
      then show ?thesis
        using Cons False f s up_to_first_no_match [OF None]
        by (auto simp: up_to_first_append split: prod.splits option.splits)
    next
      case (Some c)
      then show ?thesis
        using False f s by (auto simp: up_to_first_append split: prod.splits option.splits)
    qed
  qed
qed

lemma first_match_smallest:
  assumes "sorted ks" "k \<in> set ks" "c' \<in> set (combinations ys k)" "P c'"
  shows "\<exists>c. find P (concat (map (combinations ys) ks)) = Some c \<and> length c \<le> k"
  using assms
proof (induction ks)
  case Nil
  then show ?case by simp
next
  case (Cons k0 ks)
  show ?case
  proof (cases "find P (combinations ys k0)")
    case None
    then have "k \<noteq> k0" using Cons.prems(3,4) by (auto simp: find_None_iff)
    then have "\<exists>c. find P (concat (map (combinations ys) ks)) = Some c \<and> length c \<le> k"
      using Cons by simp
    then show ?thesis using None by (simp add: find_append)
  next
    case (Some c)
    then have "length c = k0" using find_SomeD [OF Some] by (simp add: combinations_iff)
    moreover have "k0 \<le> k" using Cons.prems(1,2) by auto
    ultimately show ?thesis using Some by (simp add: find_append)
  qed
qed

subsection \<open>The three exits of \<open>find_matching_subset\<close>\<close>

lemma fms_base_full:
  "sum_list xs = t \<or> sum_list xs = 0 \<Longrightarrow>
     find_matching_subset xs t = \<lparr>returned = PyList xs, final_list = xs, examined = []\<rparr>"
  by (simp add: find_matching_subset_def)

lemma fms_base_unreachable:
  "sum_list xs \<noteq> t \<Longrightarrow> sum_list xs \<noteq> 0 \<Longrightarrow> sum_list xs < t \<Longrightarrow>
     find_matching_subset xs t = \<lparr>returned = PyList [], final_list = xs, examined = []\<rparr>"
  by (simp add: find_matching_subset_def)

lemma fms_search:
  "sum_list xs \<noteq> t \<Longrightarrow> sum_list xs \<noteq> 0 \<Longrightarrow> \<not> sum_list xs < t \<Longrightarrow>
     find_matching_subset xs t =
       \<lparr>returned = fst (outer_loop (sort_descending xs) t [0..<length xs]),
        final_list = sort_descending xs,
        examined = snd (outer_loop (sort_descending xs) t [0..<length xs])\<rparr>"
  by (simp add: find_matching_subset_def Let_def length_sort_descending split: prod.splits)

lemma returned_search:
  assumes "sum_list xs \<noteq> t" "sum_list xs \<noteq> 0" "\<not> sum_list xs < t"
  shows "returned (find_matching_subset xs t) =
     (case find (\<lambda>c. sum_list c = t)
             (concat (map (combinations (sort_descending xs)) [0..<length xs])) of
        Some c \<Rightarrow> PyTuple c | None \<Rightarrow> PyList [])"
  using assms by (simp add: fms_search outer_loop_fst [OF sorted_sort_descending])

lemma examined_search:
  assumes "sum_list xs \<noteq> t" "sum_list xs \<noteq> 0" "\<not> sum_list xs < t"
    and "find (\<lambda>c. sum_list c = t)
           (concat (map (combinations (sort_descending xs)) [0..<length xs])) = Some c"
  shows "examined (find_matching_subset xs t) \<noteq> [] \<and> last (examined (find_matching_subset xs t)) = c"
proof -
  let ?E = "concat (map (\<lambda>k. if sum_list (take k (sort_descending xs)) < t then []
      else combinations (sort_descending xs) k) [0..<length xs])"
  have "find (\<lambda>c. sum_list c = t) ?E = Some c"
    using assms(4) find_unpruned [OF sorted_sort_descending, of t xs] by simp
  then have "up_to_first (\<lambda>c. sum_list c = t) ?E \<noteq> [] \<and>
      last (up_to_first (\<lambda>c. sum_list c = t) ?E) = c"
    by (rule up_to_first_last)
  then show ?thesis using assms(1-3) by (simp add: fms_search outer_loop_snd)
qed

lemma returned_zero_target:
  assumes "\<forall>x \<in> set xs. 0 < x" "xs \<noteq> []"
  shows "returned (find_matching_subset xs 0) = PyTuple []"
proof -
  have nz: "sum_list xs \<noteq> 0"
    using assms positive_sum_zero by blast
  have ge: "\<not> sum_list xs < 0"
    using positive_sum_nonneg [OF assms(1)] by simp
  have "[0..<length xs] = 0 # [1..<length xs]"
    using assms(2) by (simp add: upt_conv_Cons)
  then have "fst (outer_loop (sort_descending xs) 0 [0..<length xs]) = PyTuple []"
    by simp
  then show ?thesis using nz ge by (simp add: fms_search)
qed

subsection \<open>Solutions and what the search finds\<close>

lemma spec_enumeration_order_eq:
  "spec_enumeration_order xs =
     concat (map (combinations (sort_descending xs)) [0..<Suc (length xs)])"
proof -
  have "map (map ((!) (sort_descending xs))) (spec_index_lists (length xs) k) =
      combinations (sort_descending xs) k" for k
    using combinations_by_index [of "sort_descending xs" k] by (simp add: length_sort_descending)
  then show ?thesis by (simp add: spec_enumeration_order_def Let_def length_sort_descending)
qed

lemma submset_combination:
  assumes "M \<subseteq># mset xs"
  shows "\<exists>c. c \<in> set (combinations (sort_descending xs) (size M)) \<and> mset c = M"
proof -
  have "M \<subseteq># mset (sort_descending xs)"
    using assms by (simp add: mset_sort_descending)
  then obtain c where "subseq c (sort_descending xs)" "mset c = M"
    using submset_subseq by blast
  moreover from this have "length c = size M" by (metis size_mset)
  ultimately show ?thesis by (auto simp: combinations_iff)
qed

lemma submset_sum_le:
  assumes "\<forall>x \<in> set xs. (0::int) < x" "M \<subseteq># mset xs"
  shows "sum_mset M \<le> sum_list xs"
proof -
  obtain c where c: "subseq c xs" "mset c = M"
    using assms(2) submset_subseq by blast
  then have "sum_list c \<le> sum_list xs" using assms(1) subseq_sum_le by blast
  then show ?thesis using c(2) by (metis sum_mset_sum_list)
qed

lemma proper_submset_size:
  assumes "\<forall>x \<in> set xs. (0::int) < x" "M \<subseteq># mset xs" "sum_mset M \<noteq> sum_list xs"
  shows "size M < length xs"
proof -
  have "size M \<le> length xs"
    using assms(2) by (metis size_mset size_mset_mono)
  moreover have "size M \<noteq> length xs"
  proof
    assume "size M = length xs"
    then have "M = mset xs"
      using assms(2) by (metis size_mset mset_subset_size subset_mset.less_le nat_less_le)
    then show False using assms(3) by (simp add: sum_mset_sum_list)
  qed
  ultimately show ?thesis by simp
qed

lemma solution_found:
  assumes "M \<subseteq># mset xs" "sum_mset M = t" "size M < length xs"
  shows "\<exists>c. find (\<lambda>c. sum_list c = t)
            (concat (map (combinations (sort_descending xs)) [0..<length xs])) = Some c"
proof -
  obtain c where c: "c \<in> set (combinations (sort_descending xs) (size M))" "mset c = M"
    using submset_combination [OF assms(1)] by blast
  have "sum_list c = t" using c(2) assms(2) by (metis sum_mset_sum_list)
  moreover have "c \<in> set (concat (map (combinations (sort_descending xs)) [0..<length xs]))"
    using c(1) assms(3) by auto
  ultimately have "find (\<lambda>c. sum_list c = t)
      (concat (map (combinations (sort_descending xs)) [0..<length xs])) \<noteq> None"
    by (auto simp: find_None_iff)
  then show ?thesis by auto
qed

lemma found_is_sound:
  assumes "find (\<lambda>c. sum_list c = t) (concat (map (combinations (sort_descending xs)) ks)) = Some c"
  shows "sum_list c = t \<and> mset c \<subseteq># mset xs"
proof -
  from find_SomeD [OF assms] obtain k where "sum_list c = t"
    "c \<in> set (combinations (sort_descending xs) k)" by auto
  then show ?thesis
    using subseq_mset_le [of c "sort_descending xs"]
    by (simp add: combinations_iff mset_sort_descending)
qed

lemma sum_mset_bounds:
  assumes "\<forall>x \<in> set xs. (0::int) < x" "M \<subseteq># mset xs"
  shows "0 \<le> sum_mset M \<and> sum_mset M \<le> sum_list xs"
proof -
  obtain c where c: "subseq c xs" "mset c = M"
    using assms(2) submset_subseq by blast
  have "\<forall>x \<in> set c. 0 < x" using subseq_set [OF c(1)] assms(1) by auto
  then have "0 \<le> sum_list c" by (rule positive_sum_nonneg)
  then show ?thesis using submset_sum_le [OF assms] c(2) by (metis sum_mset_sum_list)
qed

lemma prune_sound:
  assumes "sum_list (take k (sort_descending xs)) < t" "M \<subseteq># mset xs" "size M = k"
  shows "sum_mset M \<noteq> t"
proof -
  obtain c where c: "c \<in> set (combinations (sort_descending xs) (size M))" "mset c = M"
    using submset_combination [OF assms(2)] by blast
  then have "subseq c (sort_descending xs)" "length c = k"
    using assms(3) by (simp_all add: combinations_iff)
  then have "sum_list c \<le> sum_list (take k (sort_descending xs))"
    using prune_bound [OF sorted_sort_descending] by blast
  then have "sum_list c < t" using assms(1) by simp
  then show ?thesis using c(2) by (metis sum_mset_sum_list less_irrefl)
qed

lemma no_solution_not_found:
  assumes "\<forall>x \<in> set xs. 0 < x" "\<not> (\<exists>M. M \<subseteq># mset xs \<and> sum_mset M = t)"
  shows "returned (find_matching_subset xs t) = not_found"
proof -
  have ne: "sum_list xs \<noteq> t"
    using assms(2) by (metis subset_mset.order_refl sum_mset_sum_list)
  show ?thesis
  proof (cases "sum_list xs = 0")
    case True
    then have "xs = []" using assms(1) positive_sum_zero by blast
    then show ?thesis by (simp add: fms_base_full not_found_def)
  next
    case nz: False
    show ?thesis
    proof (cases "sum_list xs < t")
      case True
      then show ?thesis using ne nz by (simp add: fms_base_unreachable not_found_def)
    next
      case False
      have "find (\<lambda>c. sum_list c = t)
          (concat (map (combinations (sort_descending xs)) [0..<length xs])) = None"
      proof (rule ccontr)
        assume "find (\<lambda>c. sum_list c = t)
          (concat (map (combinations (sort_descending xs)) [0..<length xs])) \<noteq> None"
        then obtain c where "find (\<lambda>c. sum_list c = t)
          (concat (map (combinations (sort_descending xs)) [0..<length xs])) = Some c" by auto
        from found_is_sound [OF this] have "mset c \<subseteq># mset xs \<and> sum_mset (mset c) = t"
          by (simp add: sum_mset_sum_list)
        then show False using assms(2) by blast
      qed
      then show ?thesis using ne nz False by (simp add: returned_search not_found_def)
    qed
  qed
qed

section \<open>The claims\<close>

text \<open>
  Claim C1 (soundness of the result). For a list of positive integers, whenever the value
  returned has an element, its elements sum to the target and form a sub-multiset of the
  input: no element is used more often than the input holds it. The target may be any
  integer.
\<close>

theorem returned_subset_sound:
  assumes "\<forall>x \<in> set population_list. 0 < x"
    and "elems (returned (find_matching_subset population_list target_sum)) \<noteq> []"
  shows "sum_list (elems (returned (find_matching_subset population_list target_sum))) = target_sum \<and>
     mset (elems (returned (find_matching_subset population_list target_sum))) \<subseteq>#
       mset population_list"
proof (cases "sum_list population_list = target_sum \<or> sum_list population_list = 0")
  case True
  then have r: "returned (find_matching_subset population_list target_sum) = PyList population_list"
    by (simp add: fms_base_full)
  then have "population_list \<noteq> []" using assms(2) by simp
  then have "sum_list population_list \<noteq> 0" using assms(1) positive_sum_zero by blast
  then show ?thesis using True r by simp
next
  case base: False
  show ?thesis
  proof (cases "sum_list population_list < target_sum")
    case True
    then have "returned (find_matching_subset population_list target_sum) = PyList []"
      using base by (simp add: fms_base_unreachable)
    then show ?thesis using assms(2) by simp
  next
    case False
    let ?f = "find (\<lambda>c. sum_list c = target_sum)
       (concat (map (combinations (sort_descending population_list)) [0..<length population_list]))"
    have r: "returned (find_matching_subset population_list target_sum) =
        (case ?f of Some c \<Rightarrow> PyTuple c | None \<Rightarrow> PyList [])"
      using base False by (simp add: returned_search)
    show ?thesis
    proof (cases ?f)
      case None
      then show ?thesis using r assms(2) by simp
    next
      case (Some c)
      then show ?thesis using r found_is_sound [OF Some] by simp
    qed
  qed
qed

theorem returned_subset_sound_witness:
  "list_all (\<lambda>x. 0 < x) [4, 4, 4 :: int] \<and>
   elems (returned (find_matching_subset [4, 4, 4] 8)) = [4, 4] \<and>
   sum_list (elems (returned (find_matching_subset [4, 4, 4] 8))) = 8 \<and>
   mset (elems (returned (find_matching_subset [4, 4, 4] 8))) \<subseteq># mset [4, 4, 4]"
proof -
  have e: "elems (returned (find_matching_subset [4, 4, 4] 8)) = [4, 4]"
    by code_simp
  then show ?thesis
    using returned_subset_sound [of "[4, 4, 4]" 8] by simp
qed

text \<open>
  Claim C2 (completeness and soundness of the pruning), as amended. For a list of positive
  integers: if a sub-multiset of the list sums to the target, the returned value's elements
  sum to the target and form a sub-multiset of the list; unless the list is empty and the
  target is 0, the not-found value \<open>[]\<close> is returned only when no sub-multiset sums to the
  target; and a size \<open>k\<close> whose \<open>k\<close> largest elements sum to less than the target holds
  no solution.
\<close>

theorem search_complete:
  assumes "\<forall>x \<in> set population_list. 0 < x"
  shows "((\<exists>M. M \<subseteq># mset population_list \<and> sum_mset M = target_sum) \<longrightarrow>
            sum_list (elems (returned (find_matching_subset population_list target_sum))) = target_sum \<and>
            mset (elems (returned (find_matching_subset population_list target_sum))) \<subseteq>#
              mset population_list) \<and>
         (returned (find_matching_subset population_list target_sum) = not_found \<and>
            (population_list \<noteq> [] \<or> target_sum \<noteq> 0) \<longrightarrow>
            \<not> (\<exists>M. M \<subseteq># mset population_list \<and> sum_mset M = target_sum)) \<and>
         (\<forall>k M. sum_list (take k (sort_descending population_list)) < target_sum \<and>
            M \<subseteq># mset population_list \<and> size M = k \<longrightarrow> sum_mset M \<noteq> target_sum)"
proof (intro conjI impI allI)
  assume "\<exists>M. M \<subseteq># mset population_list \<and> sum_mset M = target_sum"
  then obtain M where M: "M \<subseteq># mset population_list" "sum_mset M = target_sum" by blast
  let ?r = "returned (find_matching_subset population_list target_sum)"
  have "sum_list (elems ?r) = target_sum \<and> mset (elems ?r) \<subseteq># mset population_list"
  proof (cases "sum_list population_list = target_sum")
    case True
    then show ?thesis by (simp add: fms_base_full)
  next
    case ne: False
    show ?thesis
    proof (cases "population_list = []")
      case True
      then show ?thesis using ne M by simp
    next
      case False
      then have nz: "sum_list population_list \<noteq> 0" using assms positive_sum_zero by blast
      have ge: "\<not> sum_list population_list < target_sum"
        using submset_sum_le [OF assms M(1)] M(2) by simp
      have "size M < length population_list"
        using proper_submset_size [OF assms M(1)] M(2) ne by simp
      then obtain c where "find (\<lambda>c. sum_list c = target_sum)
          (concat (map (combinations (sort_descending population_list))
             [0..<length population_list])) = Some c"
        using solution_found [OF M] by blast
      then show ?thesis
        using found_is_sound [of target_sum population_list _ c] ne nz ge
        by (simp add: returned_search)
    qed
  qed
  then show "sum_list (elems ?r) = target_sum" and "mset (elems ?r) \<subseteq># mset population_list"
    by simp_all
next
  assume a: "returned (find_matching_subset population_list target_sum) = not_found \<and>
    (population_list \<noteq> [] \<or> target_sum \<noteq> 0)"
  show "\<not> (\<exists>M. M \<subseteq># mset population_list \<and> sum_mset M = target_sum)"
  proof
    assume "\<exists>M. M \<subseteq># mset population_list \<and> sum_mset M = target_sum"
    then obtain M where M: "M \<subseteq># mset population_list" "sum_mset M = target_sum" by blast
    show False
    proof (cases "population_list = []")
      case True
      then show ?thesis using a M by simp
    next
      case False
      then have nz: "sum_list population_list \<noteq> 0" using assms positive_sum_zero by blast
      have ge: "\<not> sum_list population_list < target_sum"
        using submset_sum_le [OF assms M(1)] M(2) by simp
      show ?thesis
      proof (cases "sum_list population_list = target_sum")
        case True
        then show ?thesis using a False by (simp add: fms_base_full not_found_def)
      next
        case ne: False
        have "size M < length population_list"
          using proper_submset_size [OF assms M(1)] M(2) ne by simp
        then obtain c where "find (\<lambda>c. sum_list c = target_sum)
            (concat (map (combinations (sort_descending population_list))
               [0..<length population_list])) = Some c"
          using solution_found [OF M] by blast
        then show ?thesis using a ne nz ge by (simp add: returned_search not_found_def)
      qed
    qed
  qed
next
  fix k M
  assume "sum_list (take k (sort_descending population_list)) < target_sum \<and>
    M \<subseteq># mset population_list \<and> size M = k"
  then show "sum_mset M \<noteq> target_sum"
    using prune_sound by blast
qed

theorem search_complete_witness:
  "list_all (\<lambda>x. 0 < x) [3, 2, 5 :: int] \<and>
   {#3, 2#} \<subseteq># mset [3, 2, 5 :: int] \<and> sum_mset {#3, 2 :: int#} = 5 \<and>
   sum_list (elems (returned (find_matching_subset [3, 2, 5] 5))) = 5 \<and>
   mset (elems (returned (find_matching_subset [3, 2, 5] 5))) \<subseteq># mset [3, 2, 5] \<and>
   list_all (\<lambda>x. 0 < x) [2, 7, 3 :: int] \<and>
   returned (find_matching_subset [2, 7, 3] 6) = not_found \<and>
   \<not> (\<exists>M. M \<subseteq># mset [2, 7, 3 :: int] \<and> sum_mset M = 6) \<and>
   sum_list (take 1 (sort_descending [4, 4, 4])) < 8 \<and> sum_mset {#4 :: int#} \<noteq> 8"
proof -
  have ex: "\<exists>M. M \<subseteq># mset [3, 2, 5 :: int] \<and> sum_mset M = 5"
    by (rule exI [of _ "{#3, 2#}"]) simp
  have a: "sum_list (elems (returned (find_matching_subset [3, 2, 5] 5))) = 5 \<and>
      mset (elems (returned (find_matching_subset [3, 2, 5] 5))) \<subseteq># mset [3, 2, 5]"
    using search_complete [of "[3, 2, 5]" 5] ex by simp
  have nf: "returned (find_matching_subset [2, 7, 3] 6) = not_found"
    unfolding not_found_def by code_simp
  have b: "\<not> (\<exists>M. M \<subseteq># mset [2, 7, 3 :: int] \<and> sum_mset M = 6)"
    using search_complete [of "[2, 7, 3]" 6] nf by simp
  have c: "sum_list (take 1 (sort_descending [4, 4, 4])) < 8"
    by (simp add: sort_descending_def)
  show ?thesis using a nf b c by simp
qed

text \<open>
  Claim C2 as stated fails for the empty list and target 0: the empty sub-multiset sums to 0,
  and the call returns the empty input list, which is the value of the not-found signal.
\<close>

theorem search_complete_counterexample:
  "returned (find_matching_subset [] 0) = not_found \<and>
   {#} \<subseteq># mset ([] :: int list) \<and> sum_mset ({#} :: int multiset) = 0"
  by (simp add: find_matching_subset_def not_found_def)

text \<open>
  Claim C3 (the not-found value and the empty subset), as amended. For a non-empty list of
  positive integers, a target that no sub-multiset reaches gets the empty list \<open>[]\<close>,
  target 0 gets the empty tuple \<open>()\<close>, and the two values differ.
\<close>

theorem not_found_distinct_from_empty_tuple:
  assumes "population_list \<noteq> []" "\<forall>x \<in> set population_list. 0 < x"
    and "\<not> (\<exists>M. M \<subseteq># mset population_list \<and> sum_mset M = target_sum)"
  shows "returned (find_matching_subset population_list target_sum) = not_found \<and>
         returned (find_matching_subset population_list 0) = PyTuple [] \<and>
         returned (find_matching_subset population_list target_sum) \<noteq>
           returned (find_matching_subset population_list 0)"
  using no_solution_not_found [OF assms(2,3)] returned_zero_target [OF assms(2,1)]
  by (simp add: not_found_def)

theorem not_found_distinct_from_empty_tuple_witness:
  "[1, 2, 3 :: int] \<noteq> [] \<and> list_all (\<lambda>x. 0 < x) [1, 2, 3 :: int] \<and>
   returned (find_matching_subset [1, 2, 3] 100) = PyList [] \<and>
   returned (find_matching_subset [1, 2, 3] 0) = PyTuple [] \<and>
   returned (find_matching_subset [1, 2, 3] 100) \<noteq> returned (find_matching_subset [1, 2, 3] 0)"
proof -
  have pos: "\<forall>x \<in> set [1, 2, 3 :: int]. 0 < x" by simp
  have "\<not> (\<exists>M. M \<subseteq># mset [1, 2, 3 :: int] \<and> sum_mset M = 100)"
    using sum_mset_bounds [OF pos] by fastforce
  then show ?thesis
    using not_found_distinct_from_empty_tuple [of "[1, 2, 3]" 100] by (simp add: not_found_def)
qed

text \<open>
  Claim C3 as stated fails for the empty input list: target 1 has no solution, target 0 has
  the empty subset, and both calls return the same value, the empty list.
\<close>

theorem not_found_distinct_counterexample:
  "returned (find_matching_subset [] 1) = not_found \<and>
   returned (find_matching_subset [] 0) = not_found \<and>
   returned (find_matching_subset [] 1) = returned (find_matching_subset [] 0)"
  by (simp add: find_matching_subset_def not_found_def)

text \<open>
  Claim C4 (first match wins). For a list of positive integers whose total differs from the
  target, if a sub-multiset sums to the target, then the call returns, as a tuple, the first
  candidate of \<open>spec_enumeration_order\<close> that sums to the target; it is the last combination the
  inner loop examines; and no solution has fewer elements. The sign of the target plays no
  role.
\<close>

theorem first_match_order:
  assumes "\<forall>x \<in> set population_list. 0 < x"
    and "sum_list population_list \<noteq> target_sum"
    and "\<exists>M. M \<subseteq># mset population_list \<and> sum_mset M = target_sum"
  shows "\<exists>c. find (\<lambda>c. sum_list c = target_sum) (spec_enumeration_order population_list) = Some c \<and>
           returned (find_matching_subset population_list target_sum) = PyTuple c \<and>
           examined (find_matching_subset population_list target_sum) \<noteq> [] \<and>
           last (examined (find_matching_subset population_list target_sum)) = c \<and>
           (\<forall>M. M \<subseteq># mset population_list \<and> sum_mset M = target_sum \<longrightarrow> length c \<le> size M)"
proof -
  let ?ys = "sort_descending population_list"
  let ?P = "\<lambda>c. sum_list c = target_sum"
  let ?n = "length population_list"
  from assms(3) obtain M0 where M0: "M0 \<subseteq># mset population_list" "sum_mset M0 = target_sum"
    by blast
  have nonempty: "population_list \<noteq> []" using M0 assms(2) by auto
  then have nz: "sum_list population_list \<noteq> 0" using assms(1) positive_sum_zero by blast
  have ge: "\<not> sum_list population_list < target_sum"
    using submset_sum_le [OF assms(1) M0(1)] M0(2) by simp
  have small: "size M < ?n" if "M \<subseteq># mset population_list" "sum_mset M = target_sum" for M
    using proper_submset_size [OF assms(1) that(1)] that(2) assms(2) by simp
  obtain c where c: "find ?P (concat (map (combinations ?ys) [0..<?n])) = Some c"
    using solution_found [OF M0 small [OF M0]] by blast
  have "spec_enumeration_order population_list =
      concat (map (combinations ?ys) [0..<?n]) @ combinations ?ys ?n"
    by (simp add: spec_enumeration_order_eq)
  then have first: "find ?P (spec_enumeration_order population_list) = Some c"
    using c by (simp add: find_append)
  have ret: "returned (find_matching_subset population_list target_sum) = PyTuple c"
    using c assms(2) nz ge by (simp add: returned_search)
  have seen: "examined (find_matching_subset population_list target_sum) \<noteq> [] \<and>
      last (examined (find_matching_subset population_list target_sum)) = c"
    using examined_search [OF assms(2) nz ge c] .
  have "length c \<le> size M" if M: "M \<subseteq># mset population_list" "sum_mset M = target_sum" for M
  proof -
    obtain c' where c': "c' \<in> set (combinations ?ys (size M))" "mset c' = M"
      using submset_combination [OF M(1)] by blast
    have "?P c'" using c'(2) M(2) by (metis sum_mset_sum_list)
    moreover have "size M \<in> set [0..<?n]" using small [OF M] by simp
    ultimately obtain d where "find ?P (concat (map (combinations ?ys) [0..<?n])) = Some d"
      "length d \<le> size M"
      using first_match_smallest [of "[0..<?n]" "size M" c' ?ys ?P] c'(1) by auto
    then show ?thesis using c by simp
  qed
  then show ?thesis using first ret seen by blast
qed

theorem first_match_order_witness:
  "list_all (\<lambda>x. 0 < x) [5, 3, 2 :: int] \<and> sum_list [5, 3, 2] \<noteq> (5::int) \<and>
   {#3, 2#} \<subseteq># mset [5, 3, 2 :: int] \<and> sum_mset {#3, 2 :: int#} = 5 \<and>
   spec_enumeration_order [5, 3, 2] = [[], [5], [3], [2], [5, 3], [5, 2], [3, 2], [5, 3, 2]] \<and>
   find (\<lambda>c. sum_list c = 5) (spec_enumeration_order [5, 3, 2]) = Some [5] \<and>
   returned (find_matching_subset [5, 3, 2] 5) = PyTuple [5] \<and>
   examined (find_matching_subset [5, 3, 2] 5) = [[5]] \<and>
   length [5 :: int] \<le> size {#3, 2 :: int#}"
proof -
  have ex: "\<exists>M. M \<subseteq># mset [5, 3, 2 :: int] \<and> sum_mset M = 5"
    by (rule exI [of _ "{#3, 2#}"]) simp
  have en: "spec_enumeration_order [5, 3, 2] = [[], [5], [3], [2], [5, 3], [5, 2], [3, 2], [5, 3, 2]]"
    by code_simp
  have se: "examined (find_matching_subset [5, 3, 2] 5) = [[5]]"
    by code_simp
  show ?thesis
    using first_match_order [of "[5, 3, 2]" 5] ex en se by simp
qed

text \<open>
  Claim C5 (full-set base case). When the sum of all elements of the list equals the target,
  \<open>find_matching_subset\<close> returns the full input list; it leaves the list as it is and
  examines no combination. No assumption on the sign of the elements or of the target is
  needed.
\<close>

theorem full_set_base_case:
  "sum_list population_list = target_sum \<Longrightarrow>
     find_matching_subset population_list target_sum =
       \<lparr>returned = PyList population_list, final_list = population_list, examined = []\<rparr>"
  by (simp add: fms_base_full)

theorem full_set_base_case_witness:
  "sum_list [2, 1, 3] = (6::int) \<and>
   find_matching_subset [2, 1, 3] 6 =
     \<lparr>returned = PyList [2, 1, 3], final_list = [2, 1, 3], examined = []\<rparr>"
  using full_set_base_case [of "[2, 1, 3]" 6] by simp

text \<open>
  Claim C6 (zero-target base case). For a list of positive integers and target 0 the returned
  value has no elements: it is the input list itself when the input is empty (line 71), and
  the empty tuple, the only combination of size 0, otherwise (line 93).
\<close>

theorem zero_target_base_case:
  assumes "\<forall>x \<in> set population_list. 0 < x"
  shows "returned (find_matching_subset population_list 0) =
           (if population_list = [] then PyList [] else PyTuple []) \<and>
         elems (returned (find_matching_subset population_list 0)) = []"
proof (cases "population_list = []")
  case True
  then show ?thesis by (simp add: fms_base_full)
next
  case False
  then show ?thesis using returned_zero_target [OF assms] by simp
qed

theorem zero_target_base_case_witness:
  "list_all (\<lambda>x. 0 < x) [2, 1, 3 :: int] \<and>
   returned (find_matching_subset [2, 1, 3] 0) = PyTuple [] \<and>
   returned (find_matching_subset [] 0) = PyList [] \<and>
   elems (returned (find_matching_subset [2, 1, 3] 0)) = [] \<and>
   elems (returned (find_matching_subset [] 0)) = []"
  using zero_target_base_case [of "[2, 1, 3]"] zero_target_base_case [of "[]"] by simp

text \<open>
  Claim C7 (unreachable-target base case). For a list of positive integers whose total is
  below the target, \<open>find_matching_subset\<close> returns the not-found value \<open>[]\<close>, the
  list is not sorted and no combination is examined.
\<close>

theorem unreachable_target_base_case:
  assumes "\<forall>x \<in> set population_list. 0 < x"
    and "sum_list population_list < target_sum"
  shows "find_matching_subset population_list target_sum =
           \<lparr>returned = not_found, final_list = population_list, examined = []\<rparr>"
proof (cases "sum_list population_list = 0")
  case True
  then have "population_list = []" using assms(1) positive_sum_zero by blast
  then show ?thesis by (simp add: fms_base_full not_found_def)
next
  case False
  then show ?thesis using assms(2) by (simp add: fms_base_unreachable not_found_def)
qed

theorem unreachable_target_base_case_witness:
  "list_all (\<lambda>x. 0 < x) [1, 2, 3 :: int] \<and> sum_list [1, 2, 3] < (100::int) \<and>
   find_matching_subset [1, 2, 3] 100 =
     \<lparr>returned = PyList [], final_list = [1, 2, 3], examined = []\<rparr>"
  using unreachable_target_base_case [of "[1, 2, 3]" 100] by (simp add: not_found_def)

text \<open>
  Claim C8 (determinism). The model is a function, so two calls on equal arguments agree.
  The second call on the same list object sees the list as the first call left it: it
  returns the same value, leaves the same list and examines the same combinations.
\<close>

theorem repeated_call_same_result:
  "find_matching_subset (final_list (find_matching_subset population_list target_sum)) target_sum =
     find_matching_subset population_list target_sum"
proof (cases "sum_list population_list = target_sum \<or> sum_list population_list = 0
    \<or> sum_list population_list < target_sum")
  case True
  then have "final_list (find_matching_subset population_list target_sum) = population_list"
    by (cases "sum_list population_list = target_sum \<or> sum_list population_list = 0")
      (auto simp: fms_base_full fms_base_unreachable)
  then show ?thesis by simp
next
  case False
  then have "final_list (find_matching_subset population_list target_sum) =
      sort_descending population_list"
    by (simp add: fms_search)
  moreover have "find_matching_subset (sort_descending population_list) target_sum =
      find_matching_subset population_list target_sum"
    using False
    by (simp add: fms_search sum_list_sort_descending sort_descending_idem length_sort_descending)
  ultimately show ?thesis by simp
qed

theorem repeated_call_same_result_witness:
  "final_list (find_matching_subset [3, 2, 5] 5) = [5, 3, 2] \<and>
   find_matching_subset [5, 3, 2] 5 = find_matching_subset [3, 2, 5] 5 \<and>
   returned (find_matching_subset [3, 2, 5] 5) = PyTuple [5]"
  using repeated_call_same_result [of "[3, 2, 5]" 5]
  by (simp add: find_matching_subset_def sort_descending_def)



text \<open>
  Claim C10 (the argument is sorted in place). When no base case applies, the caller's list
  after the call is the descending sort of its contents: descending, and a permutation of
  the original. When a base case applies the list is as it was.
\<close>

theorem input_list_sorted_in_place:
  "(sum_list population_list \<noteq> 0 \<and> sum_list population_list \<noteq> target_sum \<and>
      \<not> sum_list population_list < target_sum \<longrightarrow>
      final_list (find_matching_subset population_list target_sum) = sort_descending population_list \<and>
      sorted_wrt (\<lambda>a b. b \<le> a) (final_list (find_matching_subset population_list target_sum)) \<and>
      mset (final_list (find_matching_subset population_list target_sum)) = mset population_list) \<and>
   (sum_list population_list = 0 \<or> sum_list population_list = target_sum \<or>
      sum_list population_list < target_sum \<longrightarrow>
      final_list (find_matching_subset population_list target_sum) = population_list)"
proof (intro conjI impI)
  assume a: "sum_list population_list \<noteq> 0 \<and> sum_list population_list \<noteq> target_sum \<and>
      \<not> sum_list population_list < target_sum"
  then show f: "final_list (find_matching_subset population_list target_sum) =
      sort_descending population_list"
    by (simp add: fms_search)
  have "sorted_wrt (\<lambda>a b. b \<le> a) (sort_descending population_list)"
    using sorted_sort_descending [of population_list] by (simp add: sorted_map)
  then show "sorted_wrt (\<lambda>a b. b \<le> a) (final_list (find_matching_subset population_list target_sum))"
    using f by simp
  show "mset (final_list (find_matching_subset population_list target_sum)) = mset population_list"
    using f by (simp add: mset_sort_descending)
next
  assume "sum_list population_list = 0 \<or> sum_list population_list = target_sum \<or>
      sum_list population_list < target_sum"
  then show "final_list (find_matching_subset population_list target_sum) = population_list"
    by (cases "sum_list population_list = target_sum \<or> sum_list population_list = 0")
      (auto simp: fms_base_full fms_base_unreachable)
qed

theorem input_list_sorted_in_place_witness:
  "sum_list [2, 7, 3] \<noteq> (0::int) \<and> sum_list [2, 7, 3] \<noteq> (6::int) \<and> \<not> sum_list [2, 7, 3] < (6::int) \<and>
   final_list (find_matching_subset [2, 7, 3] 6) = [7, 3, 2] \<and>
   sorted_wrt (\<lambda>a b. b \<le> a) (final_list (find_matching_subset [2, 7, 3] 6)) \<and>
   mset (final_list (find_matching_subset [2, 7, 3] 6)) = mset [2, 7, 3] \<and>
   sum_list [1, 2, 3] < (100::int) \<and>
   final_list (find_matching_subset [1, 2, 3] 100) = [1, 2, 3]"
proof -
  have s: "sort_descending [2, 7, 3] = [7, 3, 2]" by (simp add: sort_descending_def)
  show ?thesis
    using input_list_sorted_in_place [of "[2, 7, 3]" 6] input_list_sorted_in_place [of "[1, 2, 3]" 100] s
    by simp
qed

end
